theory Spec2Isabelle
  imports Complex_Main "HOL-Library.AList"
begin

section \<open>The eigenmode resonance sweep of \<^verbatim>\<open>examples/02-HFSS/HFSS_eigenmode.py\<close>\<close>

text \<open>
  The script drives the eigenmode solver of HFSS in a \<^verbatim>\<open>while\<close> loop. Every pass creates
  one setup, solves it, reads the quality factor and the frequency of every mode, moves the
  minimum frequency to the frequency of the last mode, and keeps the modes whose quality
  factor is above \<^verbatim>\<open>limit\<close>.

  Python numbers are idealised as \<^typ>\<open>real\<close>: comparison and the division by \<^verbatim>\<open>1e9\<close> are
  exact, and neither rounding nor NaN is modelled. Python dictionaries keep insertion
  order, which two loops of the script rely on; they are association lists here.
\<close>

subsection \<open>Python values: errors, lists, dictionaries\<close>

datatype py_error = IndexError | KeyError

text \<open>\<^verbatim>\<open>xs[i]\<close> for a counter \<open>i\<close> that is never negative.\<close>

definition list_getitem :: "'a list \<Rightarrow> nat \<Rightarrow> py_error + 'a" where
  "list_getitem xs i = (if i < length xs then Inr (xs ! i) else Inl IndexError)"

text \<open>
  A dictionary with integer keys, in insertion order. \<^verbatim>\<open>d[k] = v\<close> overwrites the value
  of a key that is present and keeps its position, and appends a new key at the end:
  this is \<^const>\<open>AList.update\<close>.
\<close>

type_synonym 'v pydict = "(int \<times> 'v) list"

definition dict_getitem :: "'v pydict \<Rightarrow> int \<Rightarrow> py_error + 'v" where
  "dict_getitem d k = (case map_of d k of None \<Rightarrow> Inl KeyError | Some v \<Rightarrow> Inr v)"

definition dict_setitem :: "'v pydict \<Rightarrow> int \<Rightarrow> 'v \<Rightarrow> 'v pydict" where
  "dict_setitem d k v = AList.update k v d"

definition dict_keys :: "'v pydict \<Rightarrow> int list" where
  "dict_keys d = map fst d"

definition dict_values :: "'v pydict \<Rightarrow> 'v list" where
  "dict_values d = map snd d"

definition dict_len :: "'v pydict \<Rightarrow> int" where
  "dict_len d = int (length d)"

text \<open>\<^verbatim>\<open>str(n)\<close> for a non-negative integer.\<close>

fun str_nat :: "nat \<Rightarrow> string" where
  "str_nat n =
     (if n < 10 then [''0123456789'' ! n]
      else str_nat (n div 10) @ [''0123456789'' ! (n mod 10)])"

declare str_nat.simps [simp del]

subsection \<open>The solver behind \<^verbatim>\<open>hfss\<close>\<close>

text \<open>
  The properties the script writes into the setup it creates. \<^verbatim>\<open>MinimumFrequency\<close> is
  the string \<^verbatim>\<open>str(next_fmin) + " GHz"\<close> in the script; the record holds the number, in GHz.
\<close>

record setup_props =
  setup_name :: string
  MinimumFrequency :: real
  NumModes :: int
  ConvergeOnRealFreq :: bool
  MaximumPasses :: int
  MinimumPasses :: int
  MaxDeltaFreq :: int

text \<open>
  What the script reads back after \<^verbatim>\<open>analyze_setup\<close>: the report quantities of category
  \<^verbatim>\<open>"Eigen Q"\<close>, the report quantities of the default category, and for every expression
  the series \<^verbatim>\<open>get_solution_data(...).data_real()\<close> of the last adaptive pass.
\<close>

record solution =
  eigen_q :: "string list"
  eigen_mode :: "string list"
  data_real :: "string \<Rightarrow> real list"

text \<open>
  The solver is outside the script. A deterministic solver is a function from the setup
  it is given to what it reports; the setups of one run have different names, so this
  covers every sequence of responses.
\<close>

type_synonym solver = "setup_props \<Rightarrow> solution"

subsection \<open>The state of the script\<close>

text \<open>The input parameters (lines 79 to 85) and the variables the loop changes.\<close>

record inputs =
  num_modes :: int
  fmin :: real
  fmax :: real
  limit :: real

definition script_inputs :: inputs where
  "script_inputs = \<lparr>num_modes = 6, fmin = 1, fmax = 2, limit = 10\<rparr>"

text \<open>A mode is the two-element list \<^verbatim>\<open>[Q, frequency]\<close>, the frequency in Hz.\<close>

type_synonym mode = "real \<times> real"

record sweep_state =
  next_fmin :: real
  setup_nr :: nat
  resonance :: "mode pydict"

definition initial :: "inputs \<Rightarrow> sweep_state" where
  "initial p = \<lparr>next_fmin = fmin p, setup_nr = 1, resonance = []\<rparr>"

subsection \<open>\<^verbatim>\<open>find_resonance\<close>\<close>

definition make_setup :: "inputs \<Rightarrow> sweep_state \<Rightarrow> setup_props" where
  "make_setup p st =
     \<lparr>setup_name = ''em_setup'' @ str_nat (setup_nr st),
      MinimumFrequency = next_fmin st,
      NumModes = num_modes p,
      ConvergeOnRealFreq = True,
      MaximumPasses = 10,
      MinimumPasses = 3,
      MaxDeltaFreq = 5\<rparr>"

text \<open>
  The \<^verbatim>\<open>for i in eigen_mode\<close> loop: \<open>cont\<close> counts the passes, and both quantity lists
  are read at index \<open>cont\<close>.
\<close>

fun collect_modes ::
  "solution \<Rightarrow> string list \<Rightarrow> nat \<Rightarrow> mode pydict \<Rightarrow> py_error + mode pydict" where
  "collect_modes sol [] cont data = Inr data"
| "collect_modes sol (i # rest) cont data =
     (case list_getitem (eigen_q sol) cont of
        Inl e \<Rightarrow> Inl e
      | Inr q_name \<Rightarrow>
          (case list_getitem (eigen_mode sol) cont of
             Inl e \<Rightarrow> Inl e
           | Inr mode_name \<Rightarrow>
               (case list_getitem (data_real sol q_name) 0 of
                  Inl e \<Rightarrow> Inl e
                | Inr q_value \<Rightarrow>
                    (case list_getitem (data_real sol mode_name) 0 of
                       Inl e \<Rightarrow> Inl e
                     | Inr mode_value \<Rightarrow>
                         collect_modes sol rest (cont + 1)
                           (dict_setitem data (int cont) (q_value, mode_value))))))"

definition find_resonance :: "solver \<Rightarrow> inputs \<Rightarrow> sweep_state \<Rightarrow> py_error + mode pydict" where
  "find_resonance hfss p st =
     (let sol = hfss (make_setup p st)
      in collect_modes sol (eigen_mode sol) 0 [])"

subsection \<open>The sweep loop\<close>

text \<open>
  The \<^verbatim>\<open>for q in output\<close> loop: \<open>q\<close> runs over the keys of \<open>output\<close>, and an accepted mode
  is stored under the key \<open>cont_res\<close>.
\<close>

fun filter_modes ::
  "real \<Rightarrow> mode pydict \<Rightarrow> int list \<Rightarrow> int \<Rightarrow> mode pydict \<Rightarrow> py_error + mode pydict" where
  "filter_modes lmt output [] cont_res res = Inr res"
| "filter_modes lmt output (q # qs) cont_res res =
     (case dict_getitem output q of
        Inl e \<Rightarrow> Inl e
      | Inr m \<Rightarrow>
          if fst m > lmt
          then filter_modes lmt output qs (cont_res + 1) (dict_setitem res cont_res m)
          else filter_modes lmt output qs cont_res res)"

text \<open>One pass of the body of the \<^verbatim>\<open>while\<close> loop (lines 136 to 143).\<close>

definition iteration :: "solver \<Rightarrow> inputs \<Rightarrow> sweep_state \<Rightarrow> py_error + sweep_state" where
  "iteration hfss p st =
     (case find_resonance hfss p st of
        Inl e \<Rightarrow> Inl e
      | Inr output \<Rightarrow>
          (case dict_getitem output (dict_len output - 1) of
             Inl e \<Rightarrow> Inl e
           | Inr m \<Rightarrow>
               (case filter_modes (limit p) output (dict_keys output)
                       (dict_len (resonance st)) (resonance st) of
                  Inl e \<Rightarrow> Inl e
                | Inr res \<Rightarrow>
                    Inr \<lparr>next_fmin = snd m / 1000000000,
                         setup_nr = setup_nr st + 1,
                         resonance = res\<rparr>)))"

text \<open>
  The \<^verbatim>\<open>while next_fmin < fmax\<close> loop. It has no bound on the number of passes, so the
  result is an option: \<open>None\<close> is a loop that never ends, \<open>Some (Inl e)\<close> an exception
  that ends the script, \<open>Some (Inr st)\<close> the state in which the loop is left.
\<close>

partial_function (option) while_loop ::
  "solver \<Rightarrow> inputs \<Rightarrow> sweep_state \<Rightarrow> (py_error + sweep_state) option" where
  "while_loop hfss p st =
     (if next_fmin st < fmax p
      then (case iteration hfss p st of
              Inl e \<Rightarrow> Some (Inl e)
            | Inr st' \<Rightarrow> while_loop hfss p st')
      else Some (Inr st))"

text \<open>
  Line 145: one string per key of \<open>resonance\<close>. The format \<^verbatim>\<open>:.5\<close> of a float is a
  parameter \<open>fmt\<close>.
\<close>

fun format_frequencies ::
  "(real \<Rightarrow> string) \<Rightarrow> mode pydict \<Rightarrow> int list \<Rightarrow> py_error + string list" where
  "format_frequencies fmt res [] = Inr []"
| "format_frequencies fmt res (i # is) =
     (case dict_getitem res i of
        Inl e \<Rightarrow> Inl e
      | Inr m \<Rightarrow>
          (case format_frequencies fmt res is of
             Inl e \<Rightarrow> Inl e
           | Inr strs \<Rightarrow> Inr ((fmt (snd m / 1000000000) @ '' GHz'') # strs)))"

definition resonance_frequencies :: "(real \<Rightarrow> string) \<Rightarrow> sweep_state \<Rightarrow> py_error + string list" where
  "resonance_frequencies fmt st = format_frequencies fmt (resonance st) (dict_keys (resonance st))"

text \<open>The script from line 135 to line 145: the final state and the list it prints.\<close>

definition sweep ::
  "solver \<Rightarrow> (real \<Rightarrow> string) \<Rightarrow> inputs \<Rightarrow> (py_error + sweep_state \<times> string list) option" where
  "sweep hfss fmt p =
     (case while_loop hfss p (initial p) of
        None \<Rightarrow> None
      | Some (Inl e) \<Rightarrow> Some (Inl e)
      | Some (Inr st) \<Rightarrow>
          (case resonance_frequencies fmt st of
             Inl e \<Rightarrow> Some (Inl e)
           | Inr strs \<Rightarrow> Some (Inr (st, strs))))"

subsection \<open>The passes of a run\<close>

text \<open>
  \<open>state_after hfss p k st\<close> is the state in which the loop, started in \<open>st\<close>, makes its
  test for the \<open>(k+1)\<close>-th time: \<open>None\<close> when the loop was left, or an exception was raised,
  before that.
\<close>

primrec state_after :: "solver \<Rightarrow> inputs \<Rightarrow> nat \<Rightarrow> sweep_state \<Rightarrow> sweep_state option" where
  "state_after hfss p 0 st = Some st"
| "state_after hfss p (Suc k) st =
     (if next_fmin st < fmax p
      then (case iteration hfss p st of
              Inl e \<Rightarrow> None
            | Inr st' \<Rightarrow> state_after hfss p k st')
      else None)"

definition head_state :: "solver \<Rightarrow> inputs \<Rightarrow> nat \<Rightarrow> sweep_state option" where
  "head_state hfss p k = state_after hfss p k (initial p)"

text \<open>
  The dictionary that the \<open>(k+1)\<close>-th call of \<^verbatim>\<open>find_resonance\<close> returns: \<open>None\<close> when
  the loop makes no such call, or when the call raises.
\<close>

definition call_output :: "solver \<Rightarrow> inputs \<Rightarrow> nat \<Rightarrow> mode pydict option" where
  "call_output hfss p k =
     (case head_state hfss p k of
        None \<Rightarrow> None
      | Some st \<Rightarrow>
          if next_fmin st < fmax p
          then (case find_resonance hfss p st of Inl e \<Rightarrow> None | Inr output \<Rightarrow> Some output)
          else None)"

text \<open>The modes, in order, that the first \<open>k\<close> calls of \<^verbatim>\<open>find_resonance\<close> return.\<close>

definition modes_seen :: "solver \<Rightarrow> inputs \<Rightarrow> nat \<Rightarrow> mode list" where
  "modes_seen hfss p k =
     concat (map (\<lambda>j. case call_output hfss p j of None \<Rightarrow> [] | Some output \<Rightarrow> dict_values output)
               [0..<k])"

text \<open>The frequency, in Hz, of the last mode that the \<open>(k+1)\<close>-th call returns.\<close>

definition last_frequency :: "solver \<Rightarrow> inputs \<Rightarrow> nat \<Rightarrow> real option" where
  "last_frequency hfss p k =
     (case call_output hfss p k of
        None \<Rightarrow> None
      | Some output \<Rightarrow> if output = [] then None else Some (snd (snd (last output))))"

subsection \<open>Dictionaries whose keys count from zero\<close>

text \<open>
  Both dictionaries of the script, \<^verbatim>\<open>data\<close> and \<^verbatim>\<open>resonance\<close>, only ever get the key
  \<open>len(d)\<close> added: their keys are \<open>0, 1, ..., len(d) - 1\<close> in this order.
\<close>

definition indexed :: "'v pydict \<Rightarrow> bool" where
  "indexed d = (dict_keys d = map int [0..<length d])"

text \<open>What \<^verbatim>\<open>find_resonance\<close> stores for position \<open>j\<close> of the two quantity lists.\<close>

definition paired :: "solution \<Rightarrow> nat \<Rightarrow> mode" where
  "paired sol j = (data_real sol (eigen_q sol ! j) ! 0, data_real sol (eigen_mode sol ! j) ! 0)"

subsection \<open>Solvers for concrete runs\<close>

text \<open>
  A solution in which every quantity has a one-point series: \<open>qs\<close> are the quantities of
  category \<^verbatim>\<open>"Eigen Q"\<close> with their values, \<open>ms\<close> the mode quantities with theirs.
\<close>

definition solution_of :: "(string \<times> real) list \<Rightarrow> (string \<times> real) list \<Rightarrow> solution" where
  "solution_of qs ms =
     \<lparr>eigen_q = map fst qs,
      eigen_mode = map fst ms,
      data_real = (\<lambda>name. case map_of (qs @ ms) name of None \<Rightarrow> [] | Some v \<Rightarrow> [v])\<rparr>"

text \<open>The scenario of the specification: six modes, whatever the setup.\<close>

definition scenario_solver :: solver where
  "scenario_solver setup =
     solution_of
       [(''Q(1)'', 5), (''Q(2)'', 12), (''Q(3)'', 8), (''Q(4)'', 15), (''Q(5)'', 20), (''Q(6)'', 3)]
       [(''Mode(1)'', 1100000000), (''Mode(2)'', 1300000000), (''Mode(3)'', 1500000000),
        (''Mode(4)'', 1700000000), (''Mode(5)'', 1900000000), (''Mode(6)'', 2100000000)]"

definition scenario_output :: "mode pydict" where
  "scenario_output =
     [(0, (5, 1100000000)), (1, (12, 1300000000)), (2, (8, 1500000000)),
      (3, (15, 1700000000)), (4, (20, 1900000000)), (5, (3, 2100000000))]"

text \<open>A solver that needs two passes to cover the range from 1 GHz to 2 GHz.\<close>

definition two_pass_solver :: solver where
  "two_pass_solver setup =
     (if MinimumFrequency setup < 3 / 2
      then solution_of [(''Q(1)'', 20), (''Q(2)'', 5)]
             [(''Mode(1)'', 1200000000), (''Mode(2)'', 1500000000)]
      else solution_of [(''Q(1)'', 3), (''Q(2)'', 30)]
             [(''Mode(1)'', 1800000000), (''Mode(2)'', 2500000000)])"

definition two_pass_middle :: sweep_state where
  "two_pass_middle =
     \<lparr>next_fmin = 3 / 2, setup_nr = 2, resonance = [(0, (20, 1200000000))]\<rparr>"

definition two_pass_final :: sweep_state where
  "two_pass_final =
     \<lparr>next_fmin = 5 / 2, setup_nr = 3,
      resonance = [(0, (20, 1200000000)), (1, (30, 2500000000))]\<rparr>"

text \<open>
  A solver that answers as \<^const>\<open>two_pass_solver\<close> does below 2 GHz, and finds no mode
  from 2 GHz on.
\<close>

definition two_pass_twin :: solver where
  "two_pass_twin setup =
     (if MinimumFrequency setup < 3 / 2
      then solution_of [(''Q(1)'', 20), (''Q(2)'', 5)]
             [(''Mode(1)'', 1200000000), (''Mode(2)'', 1500000000)]
      else if MinimumFrequency setup < 2
      then solution_of [(''Q(1)'', 3), (''Q(2)'', 30)]
             [(''Mode(1)'', 1800000000), (''Mode(2)'', 2500000000)]
      else solution_of [] [])"

text \<open>A solver that always finds the same single mode at 0.5 GHz.\<close>

definition stuck_solver :: solver where
  "stuck_solver setup = solution_of [(''Q(1)'', 20)] [(''Mode(1)'', 500000000)]"

text \<open>A solver that reports two modes and one quality factor.\<close>

definition short_q_solver :: solver where
  "short_q_solver setup =
     solution_of [(''Q(1)'', 20)] [(''Mode(1)'', 1200000000), (''Mode(2)'', 1500000000)]"

text \<open>A solver that finds no mode.\<close>

definition empty_solver :: solver where
  "empty_solver setup = solution_of [] []"


section \<open>Properties\<close>

subsection \<open>Dictionaries\<close>

lemma update_fresh: "k \<notin> fst ` set d \<Longrightarrow> AList.update k v d = d @ [(k, v)]"
  by (induction d) auto

lemma indexed_fresh: "indexed d \<Longrightarrow> int (length d) \<notin> fst ` set d"
proof -
  assume "indexed d"
  then have "fst ` set d = int ` {0..<length d}"
    by (metis indexed_def dict_keys_def set_map set_upt)
  then show ?thesis by auto
qed

lemma indexed_Nil: "indexed []"
  by (simp add: indexed_def dict_keys_def)

lemma setitem_indexed:
  "indexed d \<Longrightarrow> dict_setitem d (int (length d)) v = d @ [(int (length d), v)]"
  by (simp add: dict_setitem_def update_fresh indexed_fresh)

lemma indexed_snoc: "indexed d \<Longrightarrow> indexed (d @ [(int (length d), v)])"
  by (simp add: indexed_def dict_keys_def)

lemma indexed_distinct: "indexed d \<Longrightarrow> distinct (map fst d)"
  by (simp add: indexed_def dict_keys_def distinct_map)

lemma indexed_lookup:
  "indexed d \<Longrightarrow> i < length d \<Longrightarrow> map_of d (int i) = Some (snd (d ! i))"
proof -
  assume a: "indexed d" "i < length d"
  then have "fst (d ! i) = int i"
    by (metis indexed_def dict_keys_def nth_map nth_upt add_0 length_map)
  moreover have "d ! i \<in> set d" using a by simp
  ultimately show ?thesis using indexed_distinct[OF a(1)]
    by (metis map_of_is_SomeI prod.collapse)
qed

lemma map_of_keys_values:
  "distinct (map fst d) \<Longrightarrow> map (\<lambda>q. the (map_of d q)) (map fst d) = map snd d"
proof (induction d)
  case Nil
  then show ?case by simp
next
  case (Cons a d)
  have "\<And>q. q \<in> set (map fst d) \<Longrightarrow> q \<noteq> fst a"
    using Cons.prems by force
  then have "map (\<lambda>q. the (map_of (a # d) q)) (map fst d) = map (\<lambda>q. the (map_of d q)) (map fst d)"
    by (intro map_cong) (simp_all split: prod.splits)
  then show ?case using Cons by simp
qed

subsection \<open>The two inner loops\<close>

lemma collect_modes_Inr:
  "indexed data \<Longrightarrow> cont = length data \<Longrightarrow> collect_modes sol xs cont data = Inr out \<Longrightarrow>
   out = data @ map (\<lambda>j. (int j, paired sol j)) [cont..<cont + length xs] \<and>
   (xs \<noteq> [] \<longrightarrow> cont + length xs \<le> length (eigen_q sol) \<and> cont + length xs \<le> length (eigen_mode sol))"
proof (induction xs arbitrary: cont data)
  case Nil
  then show ?case by simp
next
  case (Cons i rest)
  from Cons.prems(3) obtain qn mn qv mv where
    qn: "list_getitem (eigen_q sol) cont = Inr qn" and
    mn: "list_getitem (eigen_mode sol) cont = Inr mn" and
    qv: "list_getitem (data_real sol qn) 0 = Inr qv" and
    mv: "list_getitem (data_real sol mn) 0 = Inr mv" and
    rec: "collect_modes sol rest (cont + 1) (dict_setitem data (int cont) (qv, mv)) = Inr out"
    by (auto split: sum.splits)
  have set: "dict_setitem data (int cont) (qv, mv) = data @ [(int cont, (qv, mv))]"
    using Cons.prems(1,2) by (simp add: setitem_indexed)
  have ix: "indexed (data @ [(int cont, (qv, mv))])"
    using Cons.prems(1,2) by (simp add: indexed_snoc)
  have len: "cont + 1 = length (data @ [(int cont, (qv, mv))])"
    using Cons.prems(2) by simp
  note ih = Cons.IH[OF ix len rec[unfolded set]]
  have c1: "cont < length (eigen_q sol)" "cont < length (eigen_mode sol)"
    using qn mn by (auto simp: list_getitem_def split: if_splits)
  have pv: "paired sol cont = (qv, mv)"
    using qn mn qv mv by (auto simp: paired_def list_getitem_def split: if_splits)
  have "[cont..<cont + Suc (length rest)] = cont # [Suc cont..<cont + Suc (length rest)]"
    by (rule upt_conv_Cons) simp
  then have "[cont..<cont + length (i # rest)] = cont # [cont + 1..<cont + 1 + length rest]"
    by (simp del: upt_Suc)
  then have "out = data @ map (\<lambda>j. (int j, paired sol j)) [cont..<cont + length (i # rest)]"
    using ih pv by (simp del: upt_Suc)
  moreover have "cont + length (i # rest) \<le> length (eigen_q sol) \<and> cont + length (i # rest) \<le> length (eigen_mode sol)"
    using ih c1 by (cases rest) auto
  ultimately show ?case by blast
qed

lemma collect_modes_Inl: "collect_modes sol xs cont data = Inl e \<Longrightarrow> e = IndexError"
  by (induction xs arbitrary: cont data) (auto simp: list_getitem_def split: sum.splits if_splits)

lemma filter_modes_Inr:
  "indexed res \<Longrightarrow> c = int (length res) \<Longrightarrow> set qs \<subseteq> fst ` set output \<Longrightarrow>
   \<exists>res'. filter_modes lmt output qs c res = Inr res' \<and> indexed res' \<and>
      dict_values res' = dict_values res @ filter (\<lambda>m. lmt < fst m) (map (\<lambda>q. the (map_of output q)) qs)"
proof (induction qs arbitrary: c res)
  case Nil
  then show ?case by simp
next
  case (Cons q qs)
  from Cons.prems(3) obtain m where m: "map_of output q = Some m"
    by (metis list.set_intros(1) subsetD weak_map_of_SomeI domD domIff map_of_eq_None_iff)
  have qs: "set qs \<subseteq> fst ` set output" using Cons.prems(3) by simp
  show ?case
  proof (cases "lmt < fst m")
    case True
    have set: "dict_setitem res c m = res @ [(int (length res), m)]"
      using Cons.prems(1,2) by (simp add: setitem_indexed)
    have ix: "indexed (res @ [(int (length res), m)])"
      using Cons.prems(1) by (simp add: indexed_snoc)
    have len: "c + 1 = int (length (res @ [(int (length res), m)]))"
      using Cons.prems(2) by simp
    from Cons.IH[OF ix len qs] show ?thesis
      using m True set by (auto simp: dict_getitem_def dict_values_def)
  next
    case False
    from Cons.IH[OF Cons.prems(1,2) qs] show ?thesis
      using m False by (auto simp: dict_getitem_def)
  qed
qed

subsection \<open>One pass of the loop\<close>

lemma indexed_last:
  "indexed d \<Longrightarrow> d \<noteq> [] \<Longrightarrow> dict_getitem d (dict_len d - 1) = Inr (snd (last d))"
proof -
  assume a: "indexed d" "d \<noteq> []"
  then have l: "length d - 1 < length d" by (cases d) auto
  have "dict_len d - 1 = int (length d - 1)"
    using a(2) by (cases d) (auto simp: dict_len_def)
  then show ?thesis
    using indexed_lookup[OF a(1) l] a(2) by (simp add: dict_getitem_def last_conv_nth)
qed

lemma indexed_enum: "indexed (map (\<lambda>j. (int j, f j)) [0..<n])"
  by (simp add: indexed_def dict_keys_def comp_def)

lemma getitem_Nil: "dict_getitem [] k = Inl KeyError"
  by (simp add: dict_getitem_def)

lemma find_resonance_Inr:
  assumes "find_resonance hfss p st = Inr output"
  shows "output = map (\<lambda>j. (int j, paired (hfss (make_setup p st)) j))
                    [0..<length (eigen_mode (hfss (make_setup p st)))]"
    and "length (eigen_mode (hfss (make_setup p st))) \<le> length (eigen_q (hfss (make_setup p st)))"
    and "indexed output"
proof -
  let ?sol = "hfss (make_setup p st)"
  from assms have c: "collect_modes ?sol (eigen_mode ?sol) 0 [] = Inr output"
    by (simp add: find_resonance_def Let_def)
  from collect_modes_Inr[OF indexed_Nil _ c]
  show o: "output = map (\<lambda>j. (int j, paired ?sol j)) [0..<length (eigen_mode ?sol)]"
    and "length (eigen_mode ?sol) \<le> length (eigen_q ?sol)"
    by auto
  show "indexed output"
    unfolding o by (rule indexed_enum)
qed

lemma iteration_Inr:
  assumes it: "iteration hfss p st = Inr st'" and ix: "indexed (resonance st)"
  shows "\<exists>output. find_resonance hfss p st = Inr output \<and> output \<noteq> [] \<and>
           next_fmin st' = snd (snd (last output)) / 1000000000 \<and>
           setup_nr st' = setup_nr st + 1 \<and>
           indexed (resonance st') \<and>
           dict_values (resonance st') =
             dict_values (resonance st) @ filter (\<lambda>m. limit p < fst m) (dict_values output)"
proof -
  from it obtain out where fr: "find_resonance hfss p st = Inr out"
    by (auto simp: iteration_def split: sum.splits)
  have io: "indexed out" using find_resonance_Inr(3)[OF fr] .
  have ne: "out \<noteq> []"
    using it fr by (auto simp: iteration_def getitem_Nil)
  have keys: "set (dict_keys out) \<subseteq> fst ` set out"
    by (simp add: dict_keys_def)
  from filter_modes_Inr[OF ix _ keys, of "dict_len (resonance st)" "limit p"]
  obtain res' where
    fm: "filter_modes (limit p) out (dict_keys out) (dict_len (resonance st)) (resonance st) = Inr res'"
    and ir: "indexed res'"
    and vs: "dict_values res' = dict_values (resonance st) @
               filter (\<lambda>m. limit p < fst m) (map (\<lambda>q. the (map_of out q)) (dict_keys out))"
    by (auto simp: dict_len_def)
  have mv: "map (\<lambda>q. the (map_of out q)) (dict_keys out) = dict_values out"
    using map_of_keys_values[OF indexed_distinct[OF io]] by (simp add: dict_keys_def dict_values_def)
  have st': "st' = \<lparr>next_fmin = snd (snd (last out)) / 1000000000,
                   setup_nr = setup_nr st + 1, resonance = res'\<rparr>"
    using it fr fm indexed_last[OF io ne] by (simp add: iteration_def)
  show ?thesis
    using fr ne ir vs mv by (simp add: st')
qed

lemma iteration_ok:
  assumes fr: "find_resonance hfss p st = Inr output" and ne: "output \<noteq> []"
    and ix: "indexed (resonance st)"
  shows "\<exists>st'. iteration hfss p st = Inr st'"
proof -
  have io: "indexed output" using find_resonance_Inr(3)[OF fr] .
  have keys: "set (dict_keys output) \<subseteq> fst ` set output"
    by (simp add: dict_keys_def)
  from filter_modes_Inr[OF ix _ keys, of "dict_len (resonance st)" "limit p"]
  obtain res' where
    fm: "filter_modes (limit p) output (dict_keys output) (dict_len (resonance st)) (resonance st) = Inr res'"
    by (auto simp: dict_len_def)
  show ?thesis
    using fr fm indexed_last[OF io ne] by (simp add: iteration_def)
qed

lemma iteration_Inl:
  assumes it: "iteration hfss p st = Inl e" and ix: "indexed (resonance st)"
  shows "(find_resonance hfss p st = Inl IndexError \<and> e = IndexError) \<or>
         (find_resonance hfss p st = Inr [] \<and> e = KeyError)"
proof (cases "find_resonance hfss p st")
  case (Inl e')
  then have "e' = IndexError"
    by (metis collect_modes_Inl find_resonance_def)
  then show ?thesis using it Inl by (simp add: iteration_def)
next
  case (Inr out)
  have "out = []"
  proof (rule ccontr)
    assume "out \<noteq> []"
    from iteration_ok[OF Inr this ix] show False using it by auto
  qed
  then show ?thesis using it Inr by (simp add: iteration_def getitem_Nil)
qed

subsection \<open>Runs of the loop\<close>

lemma state_after_Suc:
  "state_after hfss p (Suc k) st =
     (case state_after hfss p k st of
        None \<Rightarrow> None
      | Some s \<Rightarrow>
          if next_fmin s < fmax p
          then (case iteration hfss p s of Inl e \<Rightarrow> None | Inr s' \<Rightarrow> Some s')
          else None)"
proof (induction k arbitrary: st)
  case 0
  show ?case by (simp split: sum.splits)
next
  case (Suc k)
  show ?case
  proof (cases "next_fmin st < fmax p")
    case True
    show ?thesis
    proof (cases "iteration hfss p st")
      case (Inl e)
      then show ?thesis using True by simp
    next
      case (Inr st')
      have "state_after hfss p (Suc (Suc k)) st = state_after hfss p (Suc k) st'"
        using True Inr by simp
      also note Suc.IH[of st']
      also have "state_after hfss p k st' = state_after hfss p (Suc k) st"
        using True Inr by simp
      finally show ?thesis .
    qed
  next
    case False
    then show ?thesis by simp
  qed
qed

lemma head_state_0: "head_state hfss p 0 = Some (initial p)"
  by (simp add: head_state_def)

lemma head_state_Suc:
  "head_state hfss p (Suc k) =
     (case head_state hfss p k of
        None \<Rightarrow> None
      | Some s \<Rightarrow>
          if next_fmin s < fmax p
          then (case iteration hfss p s of Inl e \<Rightarrow> None | Inr s' \<Rightarrow> Some s')
          else None)"
  unfolding head_state_def by (rule state_after_Suc)

lemma head_state_SucD:
  "head_state hfss p (Suc k) = Some st' \<Longrightarrow>
   \<exists>st. head_state hfss p k = Some st \<and> next_fmin st < fmax p \<and> iteration hfss p st = Inr st'"
  by (auto simp: head_state_Suc split: option.splits if_splits sum.splits)

lemma head_state_SucI:
  "head_state hfss p k = Some st \<Longrightarrow> next_fmin st < fmax p \<Longrightarrow> iteration hfss p st = Inr st' \<Longrightarrow>
   head_state hfss p (Suc k) = Some st'"
  by (simp add: head_state_Suc)

lemma head_state_None_mono:
  "head_state hfss p k = None \<Longrightarrow> k \<le> n \<Longrightarrow> head_state hfss p n = None"
  by (induction n) (auto simp: head_state_Suc le_Suc_eq)

lemma while_loop_state_after:
  "state_after hfss p k st = Some s \<Longrightarrow> while_loop hfss p st = while_loop hfss p s"
proof (induction k arbitrary: st)
  case 0
  then show ?case by simp
next
  case (Suc k)
  from Suc.prems obtain st' where g: "next_fmin st < fmax p"
    and it: "iteration hfss p st = Inr st'" and sa: "state_after hfss p k st' = Some s"
    by (auto split: if_splits sum.splits)
  have "while_loop hfss p st = while_loop hfss p st'"
    using g it by (subst while_loop.simps) simp
  then show ?case using Suc.IH[OF sa] by simp
qed

lemma while_loop_head_state:
  "head_state hfss p k = Some s \<Longrightarrow> while_loop hfss p (initial p) = while_loop hfss p s"
  unfolding head_state_def by (rule while_loop_state_after)

lemma while_loop_exit:
  "\<not> next_fmin s < fmax p \<Longrightarrow> while_loop hfss p s = Some (Inr s)"
  by (subst while_loop.simps) simp

lemma while_loop_raise:
  "next_fmin s < fmax p \<Longrightarrow> iteration hfss p s = Inl e \<Longrightarrow> while_loop hfss p s = Some (Inl e)"
  by (subst while_loop.simps) simp

lemma while_loop_SomeD:
  "while_loop hfss p st = Some r \<Longrightarrow>
   \<exists>k s. state_after hfss p k st = Some s \<and>
     ((\<not> next_fmin s < fmax p \<and> r = Inr s) \<or>
      (next_fmin s < fmax p \<and> (\<exists>e. iteration hfss p s = Inl e \<and> r = Inl e)))"
proof (induction rule: while_loop.raw_induct[rotated 1, consumes 1])
  case (1 w hfss p st r)
  show ?case
  proof (cases "next_fmin st < fmax p")
    case False
    then have "r = Inr st" using 1(2) by simp
    then have "state_after hfss p 0 st = Some st \<and> \<not> next_fmin st < fmax p \<and> r = Inr st"
      using False by simp
    then show ?thesis by blast
  next
    case True
    show ?thesis
    proof (cases "iteration hfss p st")
      case (Inl e)
      then have "r = Inl e" using 1(2) True by simp
      then have "state_after hfss p 0 st = Some st \<and> next_fmin st < fmax p \<and>
                 (\<exists>e. iteration hfss p st = Inl e \<and> r = Inl e)"
        using True Inl by simp
      then show ?thesis by blast
    next
      case (Inr st')
      then have "w hfss p st' = Some r" using 1(2) True by simp
      from 1(1)[OF this] obtain k s where
        sa: "state_after hfss p k st' = Some s" and
        r: "(\<not> next_fmin s < fmax p \<and> r = Inr s) \<or>
            (next_fmin s < fmax p \<and> (\<exists>e. iteration hfss p s = Inl e \<and> r = Inl e))"
        by blast
      have "state_after hfss p (Suc k) st = Some s"
        using True Inr sa by simp
      then show ?thesis using r by blast
    qed
  qed
qed

lemma while_loop_initial_SomeD:
  "while_loop hfss p (initial p) = Some r \<Longrightarrow>
   \<exists>k s. head_state hfss p k = Some s \<and>
     ((\<not> next_fmin s < fmax p \<and> r = Inr s) \<or>
      (next_fmin s < fmax p \<and> (\<exists>e. iteration hfss p s = Inl e \<and> r = Inl e)))"
  unfolding head_state_def by (rule while_loop_SomeD)

lemma head_state_inv:
  "head_state hfss p k = Some st \<Longrightarrow>
   indexed (resonance st) \<and> setup_nr st = k + 1 \<and>
   dict_values (resonance st) = filter (\<lambda>m. limit p < fst m) (modes_seen hfss p k)"
proof (induction k arbitrary: st)
  case 0
  then have "st = initial p" by (simp add: head_state_0)
  then show ?case
    by (simp add: initial_def indexed_Nil modes_seen_def dict_values_def)
next
  case (Suc k)
  from head_state_SucD[OF Suc.prems] obtain s where
    hs: "head_state hfss p k = Some s" and g: "next_fmin s < fmax p"
    and it: "iteration hfss p s = Inr st" by blast
  note ih = Suc.IH[OF hs]
  from iteration_Inr[OF it] ih obtain out where
    fr: "find_resonance hfss p s = Inr out" and
    nr: "setup_nr st = setup_nr s + 1" and ix: "indexed (resonance st)" and
    dv: "dict_values (resonance st) =
           dict_values (resonance s) @ filter (\<lambda>m. limit p < fst m) (dict_values out)"
    by blast
  have co: "call_output hfss p k = Some out"
    using hs g fr by (simp add: call_output_def)
  have "modes_seen hfss p (Suc k) = modes_seen hfss p k @ dict_values out"
    using co by (simp add: modes_seen_def)
  then show ?case using ih nr ix dv by simp
qed

subsection \<open>Two concrete runs\<close>

lemmas eval_defs = find_resonance_def make_setup_def solution_of_def list_getitem_def
  dict_setitem_def dict_getitem_def dict_len_def dict_keys_def iteration_def Let_def

lemma scenario_find:
  "find_resonance scenario_solver script_inputs (initial script_inputs) = Inr scenario_output"
  by (simp add: eval_defs scenario_solver_def scenario_output_def)

lemma two_pass_first:
  "iteration two_pass_solver script_inputs (initial script_inputs) = Inr two_pass_middle"
  by (simp add: eval_defs two_pass_solver_def two_pass_middle_def script_inputs_def initial_def)

lemma two_pass_second:
  "iteration two_pass_solver script_inputs two_pass_middle = Inr two_pass_final"
  by (simp add: eval_defs two_pass_solver_def two_pass_middle_def two_pass_final_def script_inputs_def)

lemma two_pass_head_1: "head_state two_pass_solver script_inputs (Suc 0) = Some two_pass_middle"
  using head_state_SucI[OF head_state_0 _ two_pass_first]
  by (simp add: script_inputs_def initial_def)

lemma two_pass_head_2:
  "head_state two_pass_solver script_inputs (Suc (Suc 0)) = Some two_pass_final"
  by (rule head_state_SucI[OF two_pass_head_1 _ two_pass_second])
     (simp add: two_pass_middle_def script_inputs_def)

lemma two_pass_run:
  "while_loop two_pass_solver script_inputs (initial script_inputs) = Some (Inr two_pass_final)"
proof -
  have "\<not> next_fmin two_pass_final < fmax script_inputs"
    by (simp add: two_pass_final_def script_inputs_def)
  then show ?thesis
    using while_loop_head_state[OF two_pass_head_2] by (simp add: while_loop_exit)
qed

lemma two_pass_head_3:
  "head_state two_pass_solver script_inputs (Suc (Suc (Suc 0))) = None"
  by (subst head_state_Suc, simp only: two_pass_head_2)
     (simp add: two_pass_final_def script_inputs_def)

lemma two_pass_find_0:
  "find_resonance two_pass_solver script_inputs (initial script_inputs) =
     Inr [(0, (20, 1200000000)), (1, (5, 1500000000))]"
  by (simp add: eval_defs two_pass_solver_def script_inputs_def initial_def)

lemma two_pass_find_1:
  "find_resonance two_pass_solver script_inputs two_pass_middle =
     Inr [(0, (3, 1800000000)), (1, (30, 2500000000))]"
  by (simp add: eval_defs two_pass_solver_def script_inputs_def two_pass_middle_def)

lemma two_pass_call_0:
  "call_output two_pass_solver script_inputs 0 = Some [(0, (20, 1200000000)), (1, (5, 1500000000))]"
  by (simp add: call_output_def head_state_0 two_pass_find_0) (simp add: script_inputs_def initial_def)

lemma two_pass_call_1:
  "call_output two_pass_solver script_inputs (Suc 0) = Some [(0, (3, 1800000000)), (1, (30, 2500000000))]"
  by (simp add: call_output_def two_pass_head_1 two_pass_find_1) (simp add: script_inputs_def two_pass_middle_def)

lemma two_pass_seen:
  "modes_seen two_pass_solver script_inputs (Suc (Suc 0)) =
     [(20, 1200000000), (5, 1500000000), (3, 1800000000), (30, 2500000000)]"
proof -
  have "[0..<Suc (Suc 0)] = [0, Suc 0]" by (simp add: upt_rec)
  then show ?thesis
    by (simp add: modes_seen_def two_pass_call_0 two_pass_call_1 dict_values_def)
qed

subsection \<open>The accepted modes\<close>

text \<open>
  Claim C3. Whatever the solver answers, the values of \<^verbatim>\<open>resonance\<close> are exactly the modes
  with a quality factor above \<^verbatim>\<open>limit\<close> among the modes returned so far, in the order in
  which the calls returned them (a mode with a quality factor of \<^verbatim>\<open>limit\<close> or less is
  never stored), under the keys \<open>0, 1, 2, ...\<close>. This holds each time the loop makes its
  test, and for the state in which the loop is left.
\<close>

theorem resonance_is_filtered_modes:
  "(head_state hfss p k = Some st \<longrightarrow>
      indexed (resonance st) \<and>
      dict_values (resonance st) = filter (\<lambda>m. limit p < fst m) (modes_seen hfss p k)) \<and>
   (while_loop hfss p (initial p) = Some (Inr st) \<longrightarrow>
      indexed (resonance st) \<and>
      dict_values (resonance st) =
        filter (\<lambda>m. limit p < fst m) (modes_seen hfss p (setup_nr st - 1)))"
proof (intro conjI impI)
  assume h: "head_state hfss p k = Some st"
  from head_state_inv[OF h] show "indexed (resonance st)"
    and "dict_values (resonance st) = filter (\<lambda>m. limit p < fst m) (modes_seen hfss p k)"
    by simp_all
next
  assume w: "while_loop hfss p (initial p) = Some (Inr st)"
  from while_loop_initial_SomeD[OF w] obtain n where h: "head_state hfss p n = Some st"
    by auto
  from head_state_inv[OF h] have "setup_nr st - 1 = n" by simp
  with head_state_inv[OF h] show "indexed (resonance st)"
    and "dict_values (resonance st) =
        filter (\<lambda>m. limit p < fst m) (modes_seen hfss p (setup_nr st - 1))"
    by simp_all
qed

theorem resonance_is_filtered_modes_witness:
  "while_loop two_pass_solver script_inputs (initial script_inputs) = Some (Inr two_pass_final) \<and>
   head_state two_pass_solver script_inputs (Suc (Suc 0)) = Some two_pass_final \<and>
   modes_seen two_pass_solver script_inputs (Suc (Suc 0)) =
     [(20, 1200000000), (5, 1500000000), (3, 1800000000), (30, 2500000000)] \<and>
   dict_values (resonance two_pass_final) =
     filter (\<lambda>m. limit script_inputs < fst m)
       (modes_seen two_pass_solver script_inputs (Suc (Suc 0))) \<and>
   dict_values (resonance two_pass_final) = [(20, 1200000000), (30, 2500000000)] \<and>
   dict_keys (resonance two_pass_final) = [0, 1]"
  using resonance_is_filtered_modes[of two_pass_solver script_inputs "Suc (Suc 0)" two_pass_final]
    two_pass_run two_pass_head_2 two_pass_seen
  by (simp add: two_pass_final_def dict_values_def dict_keys_def)

subsection \<open>The minimum frequency of the next setup\<close>



subsection \<open>Pairing the two quantity lists\<close>

text \<open>
  Claim C8. \<^verbatim>\<open>find_resonance\<close> pairs the quality factor and the frequency by position:
  entry \<open>j\<close> of its result holds the first values of \<^verbatim>\<open>eigen_q[j]\<close> and of
  \<^verbatim>\<open>eigen_mode[j]\<close>. It returns only if \<^verbatim>\<open>eigen_q\<close> is at least as long as
  \<^verbatim>\<open>eigen_mode\<close>; when \<^verbatim>\<open>eigen_q\<close> is shorter it raises \<^verbatim>\<open>IndexError\<close>.
\<close>

theorem positional_pairing:
  "(length (eigen_q (hfss (make_setup p st))) < length (eigen_mode (hfss (make_setup p st))) \<longrightarrow>
      find_resonance hfss p st = Inl IndexError) \<and>
   (find_resonance hfss p st = Inr out \<longrightarrow>
      length (eigen_mode (hfss (make_setup p st))) \<le> length (eigen_q (hfss (make_setup p st))) \<and>
      out = map (\<lambda>j. (int j, paired (hfss (make_setup p st)) j))
              [0..<length (eigen_mode (hfss (make_setup p st)))])"
proof (intro conjI impI)
  assume short: "length (eigen_q (hfss (make_setup p st))) < length (eigen_mode (hfss (make_setup p st)))"
  show "find_resonance hfss p st = Inl IndexError"
  proof (cases "find_resonance hfss p st")
    case (Inl e)
    then have "e = IndexError"
      by (metis collect_modes_Inl find_resonance_def)
    then show ?thesis using Inl by simp
  next
    case (Inr d)
    from find_resonance_Inr(2)[OF Inr] short show ?thesis by simp
  qed
next
  assume fr: "find_resonance hfss p st = Inr out"
  from find_resonance_Inr(2)[OF fr]
  show "length (eigen_mode (hfss (make_setup p st))) \<le> length (eigen_q (hfss (make_setup p st)))" .
  from find_resonance_Inr(1)[OF fr]
  show "out = map (\<lambda>j. (int j, paired (hfss (make_setup p st)) j))
              [0..<length (eigen_mode (hfss (make_setup p st)))]" .
qed

theorem positional_pairing_witness:
  "length (eigen_q (short_q_solver (make_setup script_inputs (initial script_inputs))))
     < length (eigen_mode (short_q_solver (make_setup script_inputs (initial script_inputs)))) \<and>
   find_resonance short_q_solver script_inputs (initial script_inputs) = Inl IndexError \<and>
   find_resonance two_pass_solver script_inputs (initial script_inputs)
     = Inr [(0, (20, 1200000000)), (1, (5, 1500000000))] \<and>
   [(0, (20, 1200000000)), (1, (5, 1500000000))]
     = map (\<lambda>j. (int j, paired (two_pass_solver (make_setup script_inputs (initial script_inputs))) j))
         [0..<length (eigen_mode (two_pass_solver (make_setup script_inputs (initial script_inputs))))]"
proof -
  have short: "length (eigen_q (short_q_solver (make_setup script_inputs (initial script_inputs))))
     < length (eigen_mode (short_q_solver (make_setup script_inputs (initial script_inputs))))"
    by (simp add: short_q_solver_def solution_of_def)
  from positional_pairing[of short_q_solver script_inputs "initial script_inputs", THEN conjunct1] short
  have a: "find_resonance short_q_solver script_inputs (initial script_inputs) = Inl IndexError"
    by (rule mp)
  from positional_pairing[of two_pass_solver script_inputs "initial script_inputs", THEN conjunct2]
    two_pass_find_0
  have b: "[(0, (20, 1200000000)), (1, (5, 1500000000))]
     = map (\<lambda>j. (int j, paired (two_pass_solver (make_setup script_inputs (initial script_inputs))) j))
         [0..<length (eigen_mode (two_pass_solver (make_setup script_inputs (initial script_inputs))))]"
    by blast
  show ?thesis using short a b two_pass_find_0 by blast
qed

subsection \<open>A response without modes\<close>

lemma find_resonance_empty:
  "eigen_mode (hfss (make_setup p st)) = [] \<Longrightarrow> find_resonance hfss p st = Inr []"
  by (simp add: find_resonance_def Let_def)

lemma iteration_empty:
  "eigen_mode (hfss (make_setup p st)) = [] \<Longrightarrow> iteration hfss p st = Inl KeyError"
  by (simp add: iteration_def find_resonance_empty getitem_Nil)

text \<open>
  Claim C10. When a pass of the loop gets a response with no mode, \<^verbatim>\<open>find_resonance\<close>
  returns the empty dictionary, the lookup of the key \<^verbatim>\<open>len(output) - 1\<close>, which is \<open>-1\<close>,
  raises \<^verbatim>\<open>KeyError\<close>, and the script ends with this exception. A pass that completes
  has had at least one mode.
\<close>

theorem empty_response_raises:
  "(head_state hfss p k = Some st \<and> next_fmin st < fmax p \<and>
      eigen_mode (hfss (make_setup p st)) = [] \<longrightarrow>
      find_resonance hfss p st = Inr [] \<and>
      dict_getitem ([] :: mode pydict) (dict_len ([] :: mode pydict) - 1) = Inl KeyError \<and>
      while_loop hfss p (initial p) = Some (Inl KeyError)) \<and>
   (iteration hfss p st = Inr st' \<longrightarrow> eigen_mode (hfss (make_setup p st)) \<noteq> [])"
proof (intro conjI impI)
  assume a: "head_state hfss p k = Some st \<and> next_fmin st < fmax p \<and>
      eigen_mode (hfss (make_setup p st)) = []"
  then show "find_resonance hfss p st = Inr []" by (simp add: find_resonance_empty)
  show "dict_getitem ([] :: mode pydict) (dict_len ([] :: mode pydict) - 1) = Inl KeyError"
    by (rule getitem_Nil)
  from a have "while_loop hfss p st = Some (Inl KeyError)"
    by (simp add: while_loop_raise iteration_empty)
  moreover from a have "head_state hfss p k = Some st" by simp
  then have "while_loop hfss p (initial p) = while_loop hfss p st"
    by (rule while_loop_head_state)
  ultimately show "while_loop hfss p (initial p) = Some (Inl KeyError)"
    by simp
next
  assume "iteration hfss p st = Inr st'"
  then show "eigen_mode (hfss (make_setup p st)) \<noteq> []"
    using iteration_empty[of hfss p st] by auto
qed

theorem empty_response_raises_witness:
  "head_state empty_solver script_inputs 0 = Some (initial script_inputs) \<and>
   next_fmin (initial script_inputs) < fmax script_inputs \<and>
   eigen_mode (empty_solver (make_setup script_inputs (initial script_inputs))) = [] \<and>
   while_loop empty_solver script_inputs (initial script_inputs) = Some (Inl KeyError) \<and>
   iteration two_pass_solver script_inputs (initial script_inputs) = Inr two_pass_middle \<and>
   eigen_mode (two_pass_solver (make_setup script_inputs (initial script_inputs))) \<noteq> []"
proof -
  have h: "head_state empty_solver script_inputs 0 = Some (initial script_inputs) \<and>
     next_fmin (initial script_inputs) < fmax script_inputs \<and>
     eigen_mode (empty_solver (make_setup script_inputs (initial script_inputs))) = []"
    by (simp add: head_state_0 initial_def script_inputs_def empty_solver_def solution_of_def)
  from empty_response_raises[of empty_solver script_inputs 0 "initial script_inputs",
      THEN conjunct1, THEN mp, OF h]
  have a: "while_loop empty_solver script_inputs (initial script_inputs) = Some (Inl KeyError)"
    by simp
  from empty_response_raises[of two_pass_solver script_inputs _ "initial script_inputs" two_pass_middle,
      THEN conjunct2, THEN mp, OF two_pass_first]
  have b: "eigen_mode (two_pass_solver (make_setup script_inputs (initial script_inputs))) \<noteq> []" .
  show ?thesis using h a b two_pass_first by blast
qed

subsection \<open>The printed frequencies\<close>

lemma format_frequencies_keys:
  "set ks \<subseteq> fst ` set res \<Longrightarrow>
   format_frequencies fmt res ks =
     Inr (map (\<lambda>m. fmt (snd m / 1000000000) @ '' GHz'') (map (\<lambda>q. the (map_of res q)) ks))"
proof (induction ks)
  case Nil
  then show ?case by simp
next
  case (Cons i ks)
  from Cons.prems obtain m where m: "map_of res i = Some m"
    by (metis list.set_intros(1) subsetD domD domIff map_of_eq_None_iff)
  from Cons have "format_frequencies fmt res ks =
     Inr (map (\<lambda>m. fmt (snd m / 1000000000) @ '' GHz'') (map (\<lambda>q. the (map_of res q)) ks))"
    by simp
  then show ?case using m by (simp add: dict_getitem_def)
qed

lemma resonance_frequencies_indexed:
  "indexed (resonance st) \<Longrightarrow>
   resonance_frequencies fmt st =
     Inr (map (\<lambda>m. fmt (snd m / 1000000000) @ '' GHz'') (dict_values (resonance st)))"
proof -
  assume ix: "indexed (resonance st)"
  have "set (dict_keys (resonance st)) \<subseteq> fst ` set (resonance st)"
    by (simp add: dict_keys_def)
  from format_frequencies_keys[OF this] map_of_keys_values[OF indexed_distinct[OF ix]]
  show ?thesis by (simp add: resonance_frequencies_def dict_keys_def dict_values_def)
qed

text \<open>
  Claim C9. When the loop is left, the script builds one string for every accepted mode,
  in the order of \<^verbatim>\<open>resonance\<close>: the frequency divided by \<^verbatim>\<open>1e9\<close>, formatted, followed
  by \<^verbatim>\<open>" GHz"\<close>.
\<close>

theorem display_strings:
  "while_loop hfss p (initial p) = Some (Inr st) \<Longrightarrow>
   sweep hfss fmt p =
     Some (Inr (st, map (\<lambda>m. fmt (snd m / 1000000000) @ '' GHz'') (dict_values (resonance st))))"
proof -
  assume w: "while_loop hfss p (initial p) = Some (Inr st)"
  from while_loop_initial_SomeD[OF w] obtain n where h: "head_state hfss p n = Some st"
    by auto
  from head_state_inv[OF h] have "indexed (resonance st)" by simp
  from resonance_frequencies_indexed[OF this] w show ?thesis
    by (simp add: sweep_def)
qed

theorem display_strings_witness:
  "while_loop two_pass_solver script_inputs (initial script_inputs) = Some (Inr two_pass_final) \<and>
   sweep two_pass_solver (\<lambda>x. if x = 6 / 5 then ''1.2'' else ''2.5'') script_inputs =
     Some (Inr (two_pass_final, [''1.2 GHz'', ''2.5 GHz'']))"
  using display_strings[OF two_pass_run, of "\<lambda>x. if x = 6 / 5 then ''1.2'' else ''2.5''"] two_pass_run
  by (simp add: two_pass_final_def dict_values_def)

subsection \<open>What a run depends on\<close>

lemma last_frequency_SomeD:
  assumes lf: "last_frequency hfss p k = Some f"
  shows "\<exists>st st'. head_state hfss p k = Some st \<and> next_fmin st < fmax p \<and>
           iteration hfss p st = Inr st' \<and> next_fmin st' = f / 1000000000 \<and>
           head_state hfss p (Suc k) = Some st'"
proof -
  from lf obtain out where co: "call_output hfss p k = Some out" and ne: "out \<noteq> []"
    and f: "f = snd (snd (last out))"
    by (auto simp: last_frequency_def split: option.splits if_splits)
  from co obtain st where hs: "head_state hfss p k = Some st" and g: "next_fmin st < fmax p"
    and fr: "find_resonance hfss p st = Inr out"
    by (auto simp: call_output_def split: option.splits if_splits sum.splits)
  from head_state_inv[OF hs] have ix: "indexed (resonance st)" by simp
  from iteration_ok[OF fr ne ix] obtain st' where it: "iteration hfss p st = Inr st'" by blast
  from iteration_Inr[OF it ix] fr f have nf: "next_fmin st' = f / 1000000000" by auto
  from head_state_SucI[OF hs g it] hs g it nf show ?thesis by blast
qed

lemma last_frequency_SomeI:
  assumes hs: "head_state hfss p k = Some st" and g: "next_fmin st < fmax p"
    and it: "iteration hfss p st = Inr st'"
  shows "last_frequency hfss p k = Some (next_fmin st' * 1000000000)"
proof -
  from head_state_inv[OF hs] have ix: "indexed (resonance st)" by simp
  from iteration_Inr[OF it ix] obtain out where
    fr: "find_resonance hfss p st = Inr out" and ne: "out \<noteq> []"
    and nf: "next_fmin st' = snd (snd (last out)) / 1000000000"
    by blast
  show ?thesis using hs g fr ne nf by (simp add: last_frequency_def call_output_def)
qed

lemma never_left_loops_forever:
  assumes run: "\<And>k. \<exists>st. head_state hfss p k = Some st \<and> next_fmin st < fmax p"
  shows "while_loop hfss p (initial p) = None"
proof (rule ccontr)
  assume "while_loop hfss p (initial p) \<noteq> None"
  then obtain r where "while_loop hfss p (initial p) = Some r" by auto
  from while_loop_initial_SomeD[OF this] obtain k s where
    hs: "head_state hfss p k = Some s" and
    r: "(\<not> next_fmin s < fmax p \<and> r = Inr s) \<or>
        (next_fmin s < fmax p \<and> (\<exists>e. iteration hfss p s = Inl e \<and> r = Inl e))"
    by blast
  from run[of k] hs have g: "next_fmin s < fmax p" by auto
  with r obtain e where "iteration hfss p s = Inl e" by auto
  with hs g have "head_state hfss p (Suc k) = None" by (simp add: head_state_Suc)
  with run[of "Suc k"] show False by auto
qed

lemma iteration_cong:
  "find_resonance hfss1 p st = find_resonance hfss2 p st \<Longrightarrow>
   iteration hfss1 p st = iteration hfss2 p st"
  by (simp add: iteration_def)

lemma head_state_cong:
  assumes agree: "\<And>k st. head_state hfss1 p k = Some st \<Longrightarrow> next_fmin st < fmax p \<Longrightarrow>
            find_resonance hfss1 p st = find_resonance hfss2 p st"
  shows "head_state hfss1 p k = head_state hfss2 p k"
proof (induction k)
  case 0
  show ?case by (simp add: head_state_0)
next
  case (Suc k)
  show ?case
  proof (cases "head_state hfss1 p k")
    case None
    then show ?thesis using Suc by (simp add: head_state_Suc)
  next
    case (Some s)
    show ?thesis
    proof (cases "next_fmin s < fmax p")
      case True
      from iteration_cong[OF agree[OF Some True]] show ?thesis
        using Some Suc True by (simp add: head_state_Suc)
    next
      case False
      then show ?thesis using Some Suc by (simp add: head_state_Suc)
    qed
  qed
qed

lemma while_loop_cong_Some:
  assumes agree: "\<And>k st. head_state hfss1 p k = Some st \<Longrightarrow> next_fmin st < fmax p \<Longrightarrow>
            find_resonance hfss1 p st = find_resonance hfss2 p st"
    and w: "while_loop hfss1 p (initial p) = Some r"
  shows "while_loop hfss2 p (initial p) = Some r"
proof -
  from while_loop_initial_SomeD[OF w] obtain k s where
    hs: "head_state hfss1 p k = Some s" and
    r: "(\<not> next_fmin s < fmax p \<and> r = Inr s) \<or>
        (next_fmin s < fmax p \<and> (\<exists>e. iteration hfss1 p s = Inl e \<and> r = Inl e))"
    by blast
  from hs head_state_cong[of hfss1 p hfss2 k, OF agree] have hs2: "head_state hfss2 p k = Some s"
    by simp
  note eq = while_loop_head_state[OF hs2]
  from r show ?thesis
  proof
    assume "\<not> next_fmin s < fmax p \<and> r = Inr s"
    then show ?thesis using eq by (simp add: while_loop_exit)
  next
    assume a: "next_fmin s < fmax p \<and> (\<exists>e. iteration hfss1 p s = Inl e \<and> r = Inl e)"
    then obtain e where g: "next_fmin s < fmax p" and it: "iteration hfss1 p s = Inl e"
      and re: "r = Inl e" by blast
    from iteration_cong[OF agree[OF hs g]] it have "iteration hfss2 p s = Inl e" by simp
    then show ?thesis using eq g re by (simp add: while_loop_raise)
  qed
qed

lemma while_loop_cong:
  assumes agree: "\<And>k st. head_state hfss1 p k = Some st \<Longrightarrow> next_fmin st < fmax p \<Longrightarrow>
            find_resonance hfss1 p st = find_resonance hfss2 p st"
  shows "while_loop hfss1 p (initial p) = while_loop hfss2 p (initial p)"
proof -
  have hd: "\<And>k. head_state hfss1 p k = head_state hfss2 p k"
    by (rule head_state_cong) (rule agree)
  have agree': "\<And>k st. head_state hfss2 p k = Some st \<Longrightarrow> next_fmin st < fmax p \<Longrightarrow>
            find_resonance hfss2 p st = find_resonance hfss1 p st"
    using agree hd by simp
  have fwd: "\<And>r. while_loop hfss1 p (initial p) = Some r \<Longrightarrow> while_loop hfss2 p (initial p) = Some r"
    by (rule while_loop_cong_Some[of hfss1 p hfss2]) (rule agree)
  have bwd: "\<And>r. while_loop hfss2 p (initial p) = Some r \<Longrightarrow> while_loop hfss1 p (initial p) = Some r"
    by (rule while_loop_cong_Some[of hfss2 p hfss1]) (rule agree')
  show ?thesis
  proof (cases "while_loop hfss1 p (initial p)")
    case (Some r)
    with fwd[OF Some] show ?thesis by simp
  next
    case None
    then show ?thesis using bwd by (cases "while_loop hfss2 p (initial p)") auto
  qed
qed

subsection \<open>Two runs with the same responses\<close>

text \<open>
  Claim C7. Two runs that start from the initial state (\<^verbatim>\<open>next_fmin = fmin\<close>, empty
  \<^verbatim>\<open>resonance\<close>) and get the same response from the solver in every pass have the same
  outcome: both loop forever, or both raise the same exception, or both leave the loop in
  the same state, with the same \<^verbatim>\<open>resonance\<close>, keys, values and order. The two solvers
  may differ on every setup that the run does not submit.
\<close>

theorem sweep_deterministic:
  assumes same: "\<And>k st. head_state hfss1 p k = Some st \<Longrightarrow> next_fmin st < fmax p \<Longrightarrow>
            hfss1 (make_setup p st) = hfss2 (make_setup p st)"
  shows "while_loop hfss1 p (initial p) = while_loop hfss2 p (initial p) \<and>
         (\<forall>st1 st2. while_loop hfss1 p (initial p) = Some (Inr st1) \<longrightarrow>
                    while_loop hfss2 p (initial p) = Some (Inr st2) \<longrightarrow>
                    resonance st1 = resonance st2)"
proof -
  have "\<And>k st. head_state hfss1 p k = Some st \<Longrightarrow> next_fmin st < fmax p \<Longrightarrow>
            find_resonance hfss1 p st = find_resonance hfss2 p st"
    using same by (simp add: find_resonance_def)
  then have "while_loop hfss1 p (initial p) = while_loop hfss2 p (initial p)"
    by (rule while_loop_cong)
  then show ?thesis by auto
qed

lemma two_pass_states:
  "head_state two_pass_solver script_inputs k = Some st \<Longrightarrow> next_fmin st < fmax script_inputs \<Longrightarrow>
   (k = 0 \<and> st = initial script_inputs) \<or> (k = Suc 0 \<and> st = two_pass_middle)"
proof -
  assume hs: "head_state two_pass_solver script_inputs k = Some st"
    and g: "next_fmin st < fmax script_inputs"
  consider "k = 0" | "k = Suc 0" | "k = Suc (Suc 0)" | "Suc (Suc (Suc 0)) \<le> k"
    by arith
  then show ?thesis
  proof cases
    case 1
    then show ?thesis using hs by (simp add: head_state_0)
  next
    case 2
    then show ?thesis using hs by (simp add: two_pass_head_1)
  next
    case 3
    then have "st = two_pass_final" using hs by (simp add: two_pass_head_2)
    then show ?thesis using g by (simp add: two_pass_final_def script_inputs_def)
  next
    case 4
    from head_state_None_mono[OF two_pass_head_3 4] hs show ?thesis by simp
  qed
qed

lemma two_pass_twin_same:
  "head_state two_pass_solver script_inputs k = Some st \<Longrightarrow> next_fmin st < fmax script_inputs \<Longrightarrow>
   two_pass_solver (make_setup script_inputs st) = two_pass_twin (make_setup script_inputs st)"
  by (drule (1) two_pass_states)
     (auto simp: two_pass_solver_def two_pass_twin_def make_setup_def initial_def
        script_inputs_def two_pass_middle_def)

theorem sweep_deterministic_witness:
  "two_pass_solver \<lparr>setup_name = ''em_setup3'', MinimumFrequency = 5 / 2, NumModes = 6,
       ConvergeOnRealFreq = True, MaximumPasses = 10, MinimumPasses = 3, MaxDeltaFreq = 5\<rparr>
     \<noteq> two_pass_twin \<lparr>setup_name = ''em_setup3'', MinimumFrequency = 5 / 2, NumModes = 6,
       ConvergeOnRealFreq = True, MaximumPasses = 10, MinimumPasses = 3, MaxDeltaFreq = 5\<rparr> \<and>
   while_loop two_pass_solver script_inputs (initial script_inputs) = Some (Inr two_pass_final) \<and>
   while_loop two_pass_twin script_inputs (initial script_inputs) = Some (Inr two_pass_final)"
proof -
  have d: "two_pass_solver \<lparr>setup_name = ''em_setup3'', MinimumFrequency = 5 / 2, NumModes = 6,
       ConvergeOnRealFreq = True, MaximumPasses = 10, MinimumPasses = 3, MaxDeltaFreq = 5\<rparr>
     \<noteq> two_pass_twin \<lparr>setup_name = ''em_setup3'', MinimumFrequency = 5 / 2, NumModes = 6,
       ConvergeOnRealFreq = True, MaximumPasses = 10, MinimumPasses = 3, MaxDeltaFreq = 5\<rparr>"
    by (simp add: two_pass_solver_def two_pass_twin_def solution_of_def)
  have "while_loop two_pass_solver script_inputs (initial script_inputs)
          = while_loop two_pass_twin script_inputs (initial script_inputs) \<and>
        (\<forall>st1 st2. while_loop two_pass_solver script_inputs (initial script_inputs) = Some (Inr st1) \<longrightarrow>
                    while_loop two_pass_twin script_inputs (initial script_inputs) = Some (Inr st2) \<longrightarrow>
                    resonance st1 = resonance st2)"
  proof (rule sweep_deterministic)
    fix k st
    assume "head_state two_pass_solver script_inputs k = Some st"
      and "next_fmin st < fmax script_inputs"
    then show "two_pass_solver (make_setup script_inputs st) = two_pass_twin (make_setup script_inputs st)"
      by (rule two_pass_twin_same)
  qed
  with two_pass_run d show ?thesis by simp
qed

subsection \<open>Termination\<close>











subsection \<open>A solver that does not advance\<close>

lemma not_advancing_never_left:
  assumes lt: "fmin p < fmax p"
    and stuck: "\<And>k st. head_state hfss p k = Some st \<Longrightarrow> next_fmin st < fmax p \<Longrightarrow>
            \<exists>f. last_frequency hfss p k = Some f \<and> f / 1000000000 \<le> MinimumFrequency (make_setup p st)"
  shows "\<exists>st. head_state hfss p k = Some st \<and> next_fmin st < fmax p"
proof (induction k)
  case 0
  show ?case using lt by (simp add: head_state_0 initial_def)
next
  case (Suc k)
  then obtain st where hs: "head_state hfss p k = Some st" and g: "next_fmin st < fmax p"
    by blast
  from stuck[OF hs g] obtain f where lf: "last_frequency hfss p k = Some f"
    and le: "f / 1000000000 \<le> next_fmin st" by (auto simp: make_setup_def)
  from last_frequency_SomeD[OF lf] obtain st' where
    "head_state hfss p (Suc k) = Some st'" and "next_fmin st' = f / 1000000000"
    by blast
  with le g show ?case by auto
qed

text \<open>
  Claim C6, as the script has it. The script has no guard against a frequency that does
  not advance and raises no error for it. A pass whose last mode has a frequency at or
  below the minimum frequency of its own setup completes as any other pass, and the next
  minimum frequency is that frequency. If every pass of a run with \<^verbatim>\<open>fmin < fmax\<close> is of
  this kind, the loop never ends.
\<close>

theorem no_progress_loops_forever:
  "(head_state hfss p k = Some st \<and> next_fmin st < fmax p \<and> last_frequency hfss p k = Some f \<longrightarrow>
      (\<exists>st'. iteration hfss p st = Inr st' \<and> next_fmin st' = f / 1000000000)) \<and>
   (fmin p < fmax p \<and>
    (\<forall>k st. head_state hfss p k = Some st \<longrightarrow> next_fmin st < fmax p \<longrightarrow>
        (\<exists>f. last_frequency hfss p k = Some f \<and>
             f / 1000000000 \<le> MinimumFrequency (make_setup p st))) \<longrightarrow>
      while_loop hfss p (initial p) = None)"
proof (intro conjI impI)
  assume a: "head_state hfss p k = Some st \<and> next_fmin st < fmax p \<and> last_frequency hfss p k = Some f"
  then have lf: "last_frequency hfss p k = Some f" by simp
  from last_frequency_SomeD[OF lf] a
  show "\<exists>st'. iteration hfss p st = Inr st' \<and> next_fmin st' = f / 1000000000" by auto
next
  assume a: "fmin p < fmax p \<and>
    (\<forall>k st. head_state hfss p k = Some st \<longrightarrow> next_fmin st < fmax p \<longrightarrow>
        (\<exists>f. last_frequency hfss p k = Some f \<and>
             f / 1000000000 \<le> MinimumFrequency (make_setup p st)))"
  then have lt: "fmin p < fmax p" by simp
  have stuck: "\<exists>f. last_frequency hfss p k = Some f \<and>
             f / 1000000000 \<le> MinimumFrequency (make_setup p st)"
    if "head_state hfss p k = Some st" and "next_fmin st < fmax p" for k st
    using a that by blast
  show "while_loop hfss p (initial p) = None"
  proof (rule never_left_loops_forever)
    fix k
    from lt stuck show "\<exists>st. head_state hfss p k = Some st \<and> next_fmin st < fmax p"
      by (rule not_advancing_never_left)
  qed
qed

lemma stuck_step:
  "\<exists>st'. iteration stuck_solver script_inputs st = Inr st' \<and> next_fmin st' = 1 / 2"
  by (simp add: eval_defs stuck_solver_def script_inputs_def)

lemma stuck_states:
  "head_state stuck_solver script_inputs k = Some st \<Longrightarrow> next_fmin st = 1 \<or> next_fmin st = 1 / 2"
proof (cases k)
  case 0
  assume "head_state stuck_solver script_inputs k = Some st"
  with 0 show ?thesis by (auto simp: head_state_0 initial_def script_inputs_def)
next
  case (Suc n)
  assume "head_state stuck_solver script_inputs k = Some st"
  with Suc have "head_state stuck_solver script_inputs (Suc n) = Some st" by simp
  from head_state_SucD[OF this] obtain s where "iteration stuck_solver script_inputs s = Inr st"
    by blast
  with stuck_step[of s] show ?thesis by simp
qed

lemma stuck_never_left:
  "\<exists>st. head_state stuck_solver script_inputs k = Some st \<and> next_fmin st < fmax script_inputs"
proof (induction k)
  case 0
  show ?case by (simp add: head_state_0 initial_def script_inputs_def)
next
  case (Suc k)
  then obtain st where hs: "head_state stuck_solver script_inputs k = Some st"
    and g: "next_fmin st < fmax script_inputs" by blast
  from stuck_step[of st] obtain st' where it: "iteration stuck_solver script_inputs st = Inr st'"
    and nf: "next_fmin st' = 1 / 2" by blast
  from head_state_SucI[OF hs g it] nf show ?case by (simp add: script_inputs_def)
qed

lemma stuck_last:
  assumes hs: "head_state stuck_solver script_inputs k = Some st"
    and g: "next_fmin st < fmax script_inputs"
  shows "last_frequency stuck_solver script_inputs k = Some 500000000"
proof -
  from stuck_step[of st] obtain st' where it: "iteration stuck_solver script_inputs st = Inr st'"
    and nf: "next_fmin st' = 1 / 2" by blast
  from last_frequency_SomeI[OF hs g it] nf show ?thesis by simp
qed

text \<open>
  Claim C6, as stated, fails: with the inputs of the script and a solver that always finds
  one mode at 0.5 GHz, below the minimum frequency of 1 GHz, no error is raised and the loop
  never ends.
\<close>

theorem stuck_solver_loops_forever:
  "while_loop stuck_solver script_inputs (initial script_inputs) = None"
  by (rule never_left_loops_forever) (rule stuck_never_left)

theorem no_progress_loops_forever_witness:
  "fmin script_inputs < fmax script_inputs \<and>
   last_frequency stuck_solver script_inputs 0 = Some 500000000 \<and>
   500000000 / 1000000000 \<le> MinimumFrequency (make_setup script_inputs (initial script_inputs)) \<and>
   (\<exists>st'. iteration stuck_solver script_inputs (initial script_inputs) = Inr st' \<and>
          next_fmin st' = 500000000 / 1000000000) \<and>
   while_loop stuck_solver script_inputs (initial script_inputs) = None"
proof -
  have h0: "head_state stuck_solver script_inputs 0 = Some (initial script_inputs)"
    by (rule head_state_0)
  have g0: "next_fmin (initial script_inputs) < fmax script_inputs"
    by (simp add: initial_def script_inputs_def)
  note l0 = stuck_last[OF h0 g0]
  have lt: "fmin script_inputs < fmax script_inputs" by (simp add: script_inputs_def)
  have le: "500000000 / 1000000000 \<le> MinimumFrequency (make_setup script_inputs (initial script_inputs))"
    by (simp add: make_setup_def initial_def script_inputs_def)
  have all: "\<forall>k st. head_state stuck_solver script_inputs k = Some st \<longrightarrow>
        next_fmin st < fmax script_inputs \<longrightarrow>
        (\<exists>f. last_frequency stuck_solver script_inputs k = Some f \<and>
             f / 1000000000 \<le> MinimumFrequency (make_setup script_inputs st))"
  proof (intro allI impI)
    fix k st
    assume hs: "head_state stuck_solver script_inputs k = Some st"
      and g: "next_fmin st < fmax script_inputs"
    from stuck_states[OF hs] have "500000000 / 1000000000 \<le> MinimumFrequency (make_setup script_inputs st)"
      by (auto simp: make_setup_def)
    with stuck_last[OF hs g]
    show "\<exists>f. last_frequency stuck_solver script_inputs k = Some f \<and>
             f / 1000000000 \<le> MinimumFrequency (make_setup script_inputs st)"
      by blast
  qed
  note t = no_progress_loops_forever[of stuck_solver script_inputs 0 "initial script_inputs" 500000000]
  from t[THEN conjunct1, THEN mp, OF conjI[OF h0 conjI[OF g0 l0]]]
  have a: "\<exists>st'. iteration stuck_solver script_inputs (initial script_inputs) = Inr st' \<and>
          next_fmin st' = 500000000 / 1000000000" .
  from t[THEN conjunct2, THEN mp, OF conjI[OF lt all]]
  have b: "while_loop stuck_solver script_inputs (initial script_inputs) = None" .
  from lt l0 le a b show ?thesis by blast
qed

subsection \<open>The scenario of the specification\<close>

text \<open>
  Claim C2. With the inputs of the script (\<^verbatim>\<open>fmin = 1\<close>, \<^verbatim>\<open>fmax = 2\<close>, six modes,
  \<^verbatim>\<open>limit = 10\<close>), if the first call of \<^verbatim>\<open>find_resonance\<close> returns the modes at
  1.1, 1.3, 1.5, 1.7, 1.9 and 2.1 GHz with the quality factors 5, 12, 8, 15, 20 and 3, then
  the pass keeps the modes at 1.3, 1.7 and 1.9 GHz in this order, sets \<^verbatim>\<open>next_fmin\<close> to
  2.1, and the loop is left after this one pass with exactly these three modes.
\<close>

theorem scenario_run:
  assumes first: "find_resonance hfss script_inputs (initial script_inputs) = Inr scenario_output"
  shows "iteration hfss script_inputs (initial script_inputs) =
           Inr \<lparr>next_fmin = 21 / 10, setup_nr = 2,
                resonance = [(0, (12, 1300000000)), (1, (15, 1700000000)), (2, (20, 1900000000))]\<rparr> \<and>
         head_state hfss script_inputs (Suc (Suc 0)) = None \<and>
         while_loop hfss script_inputs (initial script_inputs) =
           Some (Inr \<lparr>next_fmin = 21 / 10, setup_nr = 2,
                resonance = [(0, (12, 1300000000)), (1, (15, 1700000000)), (2, (20, 1900000000))]\<rparr>)"
proof -
  let ?fin = "\<lparr>next_fmin = 21 / 10, setup_nr = 2,
                resonance = [(0, (12, 1300000000)), (1, (15, 1700000000)), (2, (20, 1900000000))]\<rparr>"
  have it: "iteration hfss script_inputs (initial script_inputs) = Inr ?fin"
    by (simp only: iteration_def first)
       (simp add: scenario_output_def dict_getitem_def dict_len_def
          dict_keys_def dict_setitem_def script_inputs_def initial_def)
  have g: "next_fmin (initial script_inputs) < fmax script_inputs"
    by (simp add: initial_def script_inputs_def)
  have h1: "head_state hfss script_inputs (Suc 0) = Some ?fin"
    by (rule head_state_SucI[OF head_state_0 g it])
  have ng: "\<not> next_fmin ?fin < fmax script_inputs"
    by (simp add: script_inputs_def)
  have h2: "head_state hfss script_inputs (Suc (Suc 0)) = None"
    by (subst head_state_Suc, simp only: h1) (simp add: script_inputs_def)
  from while_loop_head_state[OF h1] while_loop_exit[OF ng]
  have "while_loop hfss script_inputs (initial script_inputs) = Some (Inr ?fin)"
    by (rule trans)
  with it h2 show ?thesis by blast
qed

theorem scenario_run_witness:
  "find_resonance scenario_solver script_inputs (initial script_inputs) = Inr scenario_output \<and>
   while_loop scenario_solver script_inputs (initial script_inputs) =
     Some (Inr \<lparr>next_fmin = 21 / 10, setup_nr = 2,
                resonance = [(0, (12, 1300000000)), (1, (15, 1700000000)), (2, (20, 1900000000))]\<rparr>)"
  using scenario_run[OF scenario_find] scenario_find by blast

subsection \<open>Inputs out of range\<close>

lemma empty_range:
  "fmax p \<le> fmin p \<Longrightarrow> while_loop hfss p (initial p) = Some (Inr (initial p))"
  by (rule while_loop_exit) (simp add: initial_def)

lemma scenario_any_num_modes:
  "while_loop scenario_solver \<lparr>num_modes = n, fmin = 1, fmax = 2, limit = 10\<rparr>
     (initial \<lparr>num_modes = n, fmin = 1, fmax = 2, limit = 10\<rparr>)
   = Some (Inr \<lparr>next_fmin = 21 / 10, setup_nr = 2,
        resonance = [(0, (12, 1300000000)), (1, (15, 1700000000)), (2, (20, 1900000000))]\<rparr>)"
proof -
  let ?p = "\<lparr>num_modes = n, fmin = 1, fmax = 2, limit = 10\<rparr>"
  let ?fin = "\<lparr>next_fmin = 21 / 10, setup_nr = 2,
        resonance = [(0, (12, 1300000000)), (1, (15, 1700000000)), (2, (20, 1900000000))]\<rparr>"
  have it: "iteration scenario_solver ?p (initial ?p) = Inr ?fin"
    by (simp add: eval_defs scenario_solver_def initial_def)
  have g: "next_fmin (initial ?p) < fmax ?p" by (simp add: initial_def)
  have ng: "\<not> next_fmin ?fin < fmax ?p" by simp
  from while_loop_head_state[OF head_state_SucI[OF head_state_0 g it]] while_loop_exit[OF ng]
  show ?thesis by (rule trans)
qed

text \<open>
  Claim C5, as stated, fails: with \<^verbatim>\<open>fmin = fmax = 2\<close> the script ends normally with an
  empty \<^verbatim>\<open>resonance\<close>, and with \<^verbatim>\<open>num_modes\<close> 0 or 21 it runs as it does with 6.
\<close>

theorem no_configuration_error:
  "while_loop scenario_solver \<lparr>num_modes = 6, fmin = 2, fmax = 2, limit = 10\<rparr>
     (initial \<lparr>num_modes = 6, fmin = 2, fmax = 2, limit = 10\<rparr>)
   = Some (Inr \<lparr>next_fmin = 2, setup_nr = 1, resonance = []\<rparr>) \<and>
   while_loop scenario_solver \<lparr>num_modes = 0, fmin = 1, fmax = 2, limit = 10\<rparr>
     (initial \<lparr>num_modes = 0, fmin = 1, fmax = 2, limit = 10\<rparr>)
   = Some (Inr \<lparr>next_fmin = 21 / 10, setup_nr = 2,
        resonance = [(0, (12, 1300000000)), (1, (15, 1700000000)), (2, (20, 1900000000))]\<rparr>) \<and>
   while_loop scenario_solver \<lparr>num_modes = 21, fmin = 1, fmax = 2, limit = 10\<rparr>
     (initial \<lparr>num_modes = 21, fmin = 1, fmax = 2, limit = 10\<rparr>)
   = Some (Inr \<lparr>next_fmin = 21 / 10, setup_nr = 2,
        resonance = [(0, (12, 1300000000)), (1, (15, 1700000000)), (2, (20, 1900000000))]\<rparr>)"
  using empty_range[of "\<lparr>num_modes = 6, fmin = 2, fmax = 2, limit = 10\<rparr>" scenario_solver]
    scenario_any_num_modes[of 0] scenario_any_num_modes[of 21]
  by (simp add: initial_def)

text \<open>
  Claim C5, as the script has it. The script checks none of its inputs. When
  \<^verbatim>\<open>fmin >= fmax\<close> the body of the loop is never entered: whatever the solver is, the
  script ends normally in its initial state, with an empty \<^verbatim>\<open>resonance\<close>. And
  \<^verbatim>\<open>num_modes\<close> is written unchanged into \<^verbatim>\<open>NumModes\<close> of every setup.
\<close>

theorem inputs_not_validated:
  "(fmax p \<le> fmin p \<longrightarrow>
      while_loop hfss p (initial p) = Some (Inr (initial p)) \<and> resonance (initial p) = []) \<and>
   NumModes (make_setup p st) = num_modes p"
  by (simp add: empty_range make_setup_def) (simp add: initial_def)

theorem inputs_not_validated_witness:
  "fmax \<lparr>num_modes = 21, fmin = 2, fmax = 2, limit = 10\<rparr>
     \<le> fmin \<lparr>num_modes = 21, fmin = 2, fmax = 2, limit = 10\<rparr> \<and>
   while_loop scenario_solver \<lparr>num_modes = 21, fmin = 2, fmax = 2, limit = 10\<rparr>
     (initial \<lparr>num_modes = 21, fmin = 2, fmax = 2, limit = 10\<rparr>)
   = Some (Inr \<lparr>next_fmin = 2, setup_nr = 1, resonance = []\<rparr>) \<and>
   NumModes (make_setup \<lparr>num_modes = 21, fmin = 2, fmax = 2, limit = 10\<rparr>
     (initial \<lparr>num_modes = 21, fmin = 2, fmax = 2, limit = 10\<rparr>)) = 21"
  using inputs_not_validated[of "\<lparr>num_modes = 21, fmin = 2, fmax = 2, limit = 10\<rparr>" scenario_solver
      "initial \<lparr>num_modes = 21, fmin = 2, fmax = 2, limit = 10\<rparr>"]
  by (simp add: initial_def)

end
